theory Spec2Isabelle
  imports Main "HOL-Library.Finite_Map" "HOL-Library.Multiset" "HOL-Library.Char_ord"
    "HOL-Library.List_Lexorder"
begin

section \<open>Data model\<close>

text \<open>
  The registry of \<^verbatim>\<open>internal/config\<close>: a \<^verbatim>\<open>Feature\<close> struct per name, held in the Go map
  \<^verbatim>\<open>BuilderConfig.Features\<close>. A Go map is finite, hence the finite map type.
\<close>

record Feature =
  Name :: string
  Inputs :: "string list"
  Command :: string
  DependsOn :: "string list"

type_synonym BuilderConfig = "(string, Feature) fmap"

type_synonym graph = "(string, string list) fmap"

text \<open>
  Every way the Go code stops early is a value: the two \<^verbatim>\<open>fmt.Errorf\<close> results of
  \<^verbatim>\<open>topoSort\<close>, the I/O errors of hashing and of the cache package, the wrapped errors of the
  build loop, and the three run-time panics (nil feature pointer, \<^verbatim>\<open>newHash[:8]\<close>,
  \<^verbatim>\<open>feat.Inputs[0]\<close>).
\<close>

datatype error =
    CycleError string
  | UnknownDependencyError string
  | WalkError string
  | OpenError string
  | ReadError string
  | WriteError string
  | DependencyError error
  | HashError string error
  | BuildExecutionError string
  | NilPointerPanic
  | SliceBoundsPanic
  | IndexRangePanic

datatype decision = SKIP string | BUILD string

text \<open>
  What the program reads from outside: the files found by \<^verbatim>\<open>filepath.Walk\<close> under a
  directory (\<open>None\<close> when the walk fails), the content of a file (\<open>None\<close> when it cannot be
  opened or read), SHA-256 followed by hex encoding (from the Go standard library, so a
  parameter here), the outcome of \<^verbatim>\<open>docker build -t tag ctx\<close>, and whether a cache path can be
  written.
\<close>

record env =
  walk :: "string \<Rightarrow> string list option"
  readFile :: "string \<Rightarrow> string option"
  sha256hex :: "string \<Rightarrow> string"
  dockerBuild :: "string \<Rightarrow> string \<Rightarrow> bool"
  cacheWritable :: "string \<Rightarrow> bool"

text \<open>
  The state of one run: the files under \<^verbatim>\<open>.builder-cache\<close> (path to content), the per-run map
  \<^verbatim>\<open>hashCache\<close>, the lines \<^verbatim>\<open>SKIP f\<close> / \<^verbatim>\<open>BUILD f\<close> printed so far, and the docker commands run
  so far (tag and build context).
\<close>

record run_state =
  store :: "string \<rightharpoonup> string"
  hashCache :: "string \<rightharpoonup> string"
  out :: "decision list"
  builds :: "(string \<times> string) list"

record ts_state =
  visited :: "string set"
  temp :: "string set"
  order :: "string list"

section \<open>Dependency resolution (\<^verbatim>\<open>buildGraph\<close>, \<^verbatim>\<open>topoSort\<close>)\<close>

definition buildGraph :: "BuilderConfig \<Rightarrow> graph" where
  "buildGraph cfg = fmmap DependsOn cfg"

text \<open>\<^verbatim>\<open>graph[node]\<close>: indexing a Go map at a missing key gives the nil slice.\<close>

definition graph_at :: "graph \<Rightarrow> string \<Rightarrow> string list" where
  "graph_at g node = (case fmlookup g node of None \<Rightarrow> [] | Some ds \<Rightarrow> ds)"

text \<open>
  \<^verbatim>\<open>topoSort\<close> with its \<^verbatim>\<open>for _, dep := range graph[node]\<close> loop as \<open>topoSort_range\<close>. The maps
  \<^verbatim>\<open>visited\<close> and \<^verbatim>\<open>temp\<close> are the sets of keys mapped to \<^verbatim>\<open>true\<close>.
\<close>

function topoSort :: "graph \<Rightarrow> string \<Rightarrow> ts_state \<Rightarrow> error + ts_state"
  and topoSort_range :: "graph \<Rightarrow> string list \<Rightarrow> ts_state \<Rightarrow> error + ts_state"
where
  "topoSort g node s =
     (if node \<in> temp s then Inl (CycleError node)
      else if node \<in> visited s then Inr s
      else (case topoSort_range g (graph_at g node) (s\<lparr>temp := insert node (temp s)\<rparr>) of
              Inl e \<Rightarrow> Inl e
            | Inr s' \<Rightarrow> Inr (s'\<lparr>temp := temp s' - {node},
                              visited := insert node (visited s'),
                              order := order s' @ [node]\<rparr>)))"
| "topoSort_range g [] s = Inr s"
| "topoSort_range g (dep # deps) s =
     (if fmlookup g dep = None then Inl (UnknownDependencyError dep)
      else (case topoSort g dep s of
              Inl e \<Rightarrow> Inl e
            | Inr s' \<Rightarrow> topoSort_range g deps s'))"
  by pat_completeness auto

text \<open>
  The recursion is nested (the loop continues in the state the recursive call returns), so
  termination needs a fact about results first: a call that returns leaves \<open>temp\<close> as it
  found it.
\<close>

lemma topoSort_temp_partial:
  "topoSort_topoSort_range_dom (Inl (g, node, s)) \<Longrightarrow> topoSort g node s = Inr s' \<Longrightarrow> temp s' = temp s"
  "topoSort_topoSort_range_dom (Inr (g, deps, s)) \<Longrightarrow> topoSort_range g deps s = Inr s' \<Longrightarrow> temp s' = temp s"
proof (induction g node s and g deps s arbitrary: s' and s' rule: topoSort_topoSort_range.pinduct)
  case (1 g node s)
  show ?case
  proof (cases "node \<in> temp s \<or> node \<in> visited s")
    case True
    with "1.prems" "1.hyps" show ?thesis
      by (auto simp: topoSort.psimps split: if_splits)
  next
    case False
    then obtain s1 where r: "topoSort_range g (graph_at g node) (s\<lparr>temp := insert node (temp s)\<rparr>) = Inr s1"
      and s': "s' = s1\<lparr>temp := temp s1 - {node}, visited := insert node (visited s1), order := order s1 @ [node]\<rparr>"
      using "1.prems" "1.hyps" by (auto simp: topoSort.psimps split: sum.splits)
    from False r have "temp s1 = insert node (temp s)"
      using "1.IH"[of s1] by simp
    with False s' show ?thesis by auto
  qed
next
  case (2 g s)
  then show ?case by (simp add: topoSort_range.psimps)
next
  case (3 g dep deps s)
  from "3.prems" "3.hyps" obtain s1 where k: "fmlookup g dep \<noteq> None"
    and a: "topoSort g dep s = Inr s1" and b: "topoSort_range g deps s1 = Inr s'"
    by (auto simp: topoSort_range.psimps split: if_splits sum.splits)
  from "3.IH"(1)[OF k a] "3.IH"(2)[OF k a b] show ?case by simp
qed

text \<open>
  The measure: the number of registry keys not in progress. A call of \<open>topoSort\<close> on a key
  puts it in progress before looping; a call on a name that is no key (only the requested
  target can be one) loops over the nil slice.
\<close>

definition ts_level :: "graph \<Rightarrow> ts_state \<Rightarrow> nat" where
  "ts_level g s = card (fmdom' g - temp s)"

definition ts_measure ::
  "(graph \<times> string \<times> ts_state) + (graph \<times> string list \<times> ts_state) \<Rightarrow> nat \<times> nat" where
  "ts_measure x = (case x of
      Inl (g, node, s) \<Rightarrow> (if node \<in> fmdom' g then 2 * ts_level g s else 2 * ts_level g s + 2, 0)
    | Inr (g, deps, s) \<Rightarrow> (2 * ts_level g s + 1, length deps))"

lemma ts_level_insert:
  "node \<in> fmdom' g \<Longrightarrow> node \<notin> temp s \<Longrightarrow>
     ts_level g (s\<lparr>temp := insert node (temp s)\<rparr>) < ts_level g s"
  unfolding ts_level_def
  by (rule psubset_card_mono) auto

lemma ts_level_insert_absent:
  "node \<notin> fmdom' g \<Longrightarrow> ts_level g (s\<lparr>temp := insert node (temp s)\<rparr>) = ts_level g s"
  unfolding ts_level_def
  by (rule arg_cong[where f=card]) auto

termination topoSort
proof (relation "inv_image (less_than <*lex*> less_than) ts_measure")
  show "wf (inv_image (less_than <*lex*> less_than) ts_measure)"
    by (intro wf_inv_image wf_lex_prod wf_less_than)
next
  fix g node and s :: ts_state
  assume "node \<notin> temp s" "node \<notin> visited s"
  then show "(Inr (g, graph_at g node, s\<lparr>temp := insert node (temp s)\<rparr>), Inl (g, node, s))
      \<in> inv_image (less_than <*lex*> less_than) ts_measure"
    using ts_level_insert[of node g s] ts_level_insert_absent[of node g s]
    by (auto simp: ts_measure_def)
next
  fix g :: graph and dep deps and s :: ts_state
  assume "fmlookup g dep \<noteq> None"
  then show "(Inl (g, dep, s), Inr (g, dep # deps, s)) \<in> inv_image (less_than <*lex*> less_than) ts_measure"
    by (auto simp: ts_measure_def fmdom'I)
next
  fix g dep deps and s s' :: ts_state
  assume "fmlookup g dep \<noteq> None" "topoSort g dep s = Inr s'" "topoSort_topoSort_range_dom (Inl (g, dep, s))"
  then have "temp s' = temp s" by (simp add: topoSort_temp_partial(1))
  then show "(Inr (g, deps, s'), Inr (g, dep # deps, s)) \<in> inv_image (less_than <*lex*> less_than) ts_measure"
    by (auto simp: ts_measure_def ts_level_def)
qed

declare topoSort.simps [simp del]

text \<open>
  The call site (\<^verbatim>\<open>main\<close>, lines 159 to 169, and \<^verbatim>\<open>BuildFeature\<close>): fresh maps, an empty
  order, and the requested feature as the start node. The validation of the requested
  name is commented out in \<^verbatim>\<open>main\<close> and absent in \<^verbatim>\<open>BuildFeature\<close>.
\<close>

definition init_ts :: ts_state where
  "init_ts = \<lparr>visited = {}, temp = {}, order = []\<rparr>"

definition Resolve :: "BuilderConfig \<Rightarrow> string \<Rightarrow> error + string list" where
  "Resolve cfg target =
     (case topoSort (buildGraph cfg) target init_ts of
        Inl e \<Rightarrow> Inl e
      | Inr s \<Rightarrow> Inr (order s))"

section \<open>Fingerprinting\<close>

subsection \<open>\<^verbatim>\<open>HashDir\<close> and \<^verbatim>\<open>ComputeFeatureHash\<close> of \<^verbatim>\<open>cmd/apis/main.go\<close>\<close>

text \<open>
  A \<^verbatim>\<open>sha256.New()\<close> hasher is modelled by the bytes written to it so far; \<^verbatim>\<open>h.Sum\<close> and
  \<^verbatim>\<open>hex.EncodeToString\<close> together are \<open>sha256hex\<close>. The loop of \<^verbatim>\<open>HashDir\<close> copies every
  file, in sorted path order, into the one hasher \<open>h\<close>.
\<close>

fun copyFiles :: "env \<Rightarrow> string list \<Rightarrow> string \<Rightarrow> error + string" where
  "copyFiles e [] h = Inr h"
| "copyFiles e (f # fs) h =
     (case readFile e f of
        None \<Rightarrow> Inl (OpenError f)
      | Some content \<Rightarrow> copyFiles e fs (h @ content))"

definition HashDir :: "env \<Rightarrow> string \<Rightarrow> error + string" where
  "HashDir e dir =
     (case walk e dir of
        None \<Rightarrow> Inl (WalkError dir)
      | Some files \<Rightarrow>
          (case copyFiles e (sort files) [] of
             Inl err \<Rightarrow> Inl err
           | Inr h \<Rightarrow> Inr (sha256hex e h)))"

fun hashInputs :: "env \<Rightarrow> string list \<Rightarrow> string \<Rightarrow> error + string" where
  "hashInputs e [] h = Inr h"
| "hashInputs e (input # inputs) h =
     (case HashDir e input of
        Inl err \<Rightarrow> Inl err
      | Inr hash \<Rightarrow> hashInputs e inputs (h @ hash))"

definition ComputeFeatureHash :: "env \<Rightarrow> Feature \<Rightarrow> string list \<Rightarrow> error + string" where
  "ComputeFeatureHash e feat depHashes =
     (case hashInputs e (Inputs feat) (Command feat) of
        Inl err \<Rightarrow> Inl err
      | Inr h \<Rightarrow> Inr (sha256hex e (foldl (@) h (sort depHashes))))"

subsection \<open>The packages \<^verbatim>\<open>internal/hash\<close> and \<^verbatim>\<open>internal/feature\<close>\<close>

text \<open>
  The library versions, which \<^verbatim>\<open>cmd/apis/main.go\<close> does not call: here \<^verbatim>\<open>HashDir\<close> writes
  the digest of each file, and \<^verbatim>\<open>ComputeFeatureHash\<close> takes a map from dependency name to
  hash (its entries in some iteration order) and sorts the strings \<^verbatim>\<open>dep+h\<close>.
\<close>

definition HashString :: "env \<Rightarrow> string \<Rightarrow> string" where
  "HashString e s = sha256hex e s"

definition HashFile :: "env \<Rightarrow> string \<Rightarrow> error + string" where
  "HashFile e path =
     (case readFile e path of
        None \<Rightarrow> Inl (OpenError path)
      | Some content \<Rightarrow> Inr (sha256hex e content))"

fun writeFileHashes :: "env \<Rightarrow> string list \<Rightarrow> string \<Rightarrow> error + string" where
  "writeFileHashes e [] h = Inr h"
| "writeFileHashes e (f # fs) h =
     (case HashFile e f of
        Inl err \<Rightarrow> Inl err
      | Inr fileHash \<Rightarrow> writeFileHashes e fs (h @ fileHash))"

definition hash_HashDir :: "env \<Rightarrow> string \<Rightarrow> error + string" where
  "hash_HashDir e dir =
     (case walk e dir of
        None \<Rightarrow> Inl (WalkError dir)
      | Some files \<Rightarrow>
          (case writeFileHashes e (sort files) [] of
             Inl err \<Rightarrow> Inl err
           | Inr h \<Rightarrow> Inr (sha256hex e h)))"

fun join :: "string list \<Rightarrow> string \<Rightarrow> string" where
  "join [] sep = []"
| "join [p] sep = p"
| "join (p # q # ps) sep = p @ sep @ join (q # ps) sep"

fun hashInputParts :: "env \<Rightarrow> string list \<Rightarrow> string list \<Rightarrow> error + string list" where
  "hashInputParts e [] parts = Inr parts"
| "hashInputParts e (input # inputs) parts =
     (case hash_HashDir e input of
        Inl err \<Rightarrow> Inl err
      | Inr h \<Rightarrow> hashInputParts e inputs (parts @ [h]))"

definition feature_ComputeFeatureHash ::
  "env \<Rightarrow> Feature \<Rightarrow> (string \<times> string) list \<Rightarrow> error + string" where
  "feature_ComputeFeatureHash e f depHashes =
     (case hashInputParts e (Inputs f) [HashString e (Command f)] of
        Inl err \<Rightarrow> Inl err
      | Inr parts \<Rightarrow>
          Inr (HashString e (join (parts @ sort (map (\<lambda>(dep, h). dep @ h) depHashes)) ''|'')))"

section \<open>Cache store (\<^verbatim>\<open>internal/cache\<close>)\<close>

text \<open>
  \<^verbatim>\<open>filepath.Join(".builder-cache", feature, "hash")\<close>, for feature names that are single clean
  path elements.
\<close>

definition FeatureHashPath :: "string \<Rightarrow> string" where
  "FeatureHashPath feature = ''.builder-cache/'' @ feature @ ''/hash''"

definition ReadFeatureHash :: "(string \<rightharpoonup> string) \<Rightarrow> string \<Rightarrow> error + string" where
  "ReadFeatureHash files feature =
     (case files (FeatureHashPath feature) of
        None \<Rightarrow> Inl (ReadError (FeatureHashPath feature))
      | Some data \<Rightarrow> Inr data)"

definition WriteFeatureHash ::
  "env \<Rightarrow> string \<Rightarrow> string \<Rightarrow> (string \<rightharpoonup> string) \<Rightarrow> error + (string \<rightharpoonup> string)" where
  "WriteFeatureHash e feature hash files =
     (if cacheWritable e (FeatureHashPath feature)
      then Inr (files(FeatureHashPath feature \<mapsto> hash))
      else Inl (WriteError (FeatureHashPath feature)))"

section \<open>The build loop (\<^verbatim>\<open>main\<close> and \<^verbatim>\<open>BuildFeature\<close>)\<close>

text \<open>\<^verbatim>\<open>hashCache[dep]\<close> for every declared dependency; a missing key reads as the empty string.\<close>

definition collectDepHashes :: "(string \<rightharpoonup> string) \<Rightarrow> string list \<Rightarrow> string list" where
  "collectDepHashes hc deps = map (\<lambda>dep. case hc dep of None \<Rightarrow> [] | Some h \<Rightarrow> h) deps"

text \<open>
  The statement \<^verbatim>\<open>cache.WriteFeatureHash(fname, newHash)\<close>: the returned error is dropped, so
  after a failed write the run goes on with the files as they were.
\<close>

definition writeCache :: "env \<Rightarrow> string \<Rightarrow> string \<Rightarrow> run_state \<Rightarrow> run_state" where
  "writeCache e fname newHash s =
     (case WriteFeatureHash e fname newHash (store s) of
        Inl err \<Rightarrow> s
      | Inr files \<Rightarrow> s\<lparr>store := files\<rparr>)"

text \<open>
  The block after \<^verbatim>\<open>fmt.Println("BUILD", fname)\<close>: the tag \<^verbatim>\<open>fname:newHash[:8]\<close>, the context
  \<^verbatim>\<open>feat.Inputs[0]\<close>, \<^verbatim>\<open>cmd.Run()\<close>, then the cache write and the per-run map.
\<close>

definition dockerStep ::
  "env \<Rightarrow> string \<Rightarrow> Feature \<Rightarrow> string \<Rightarrow> run_state \<Rightarrow> (error \<times> run_state) + run_state" where
  "dockerStep e fname feat newHash s =
     (if length newHash < 8 then Inl (SliceBoundsPanic, s)
      else
        (case Inputs feat of
           [] \<Rightarrow> Inl (IndexRangePanic, s)
         | ctx # others \<Rightarrow>
             (let dockerTag = fname @ '':'' @ take 8 newHash;
                  s' = s\<lparr>builds := builds s @ [(dockerTag, ctx)]\<rparr>
              in if dockerBuild e dockerTag ctx
                 then Inr ((writeCache e fname newHash s')\<lparr>hashCache := (hashCache s')(fname \<mapsto> newHash)\<rparr>)
                 else Inl (BuildExecutionError fname, s'))))"

text \<open>One iteration of \<^verbatim>\<open>for _, fname := range buildOrder\<close>.\<close>

definition buildStep ::
  "env \<Rightarrow> BuilderConfig \<Rightarrow> string \<Rightarrow> run_state \<Rightarrow> (error \<times> run_state) + run_state" where
  "buildStep e cfg fname s =
     (case fmlookup cfg fname of
        None \<Rightarrow> Inl (NilPointerPanic, s)
      | Some feat \<Rightarrow>
          (case ComputeFeatureHash e feat (collectDepHashes (hashCache s) (DependsOn feat)) of
             Inl err \<Rightarrow> Inl (HashError fname err, s)
           | Inr newHash \<Rightarrow>
               (if ReadFeatureHash (store s) fname = Inr newHash
                then Inr (s\<lparr>out := out s @ [SKIP fname],
                            hashCache := (hashCache s)(fname \<mapsto> newHash)\<rparr>)
                else dockerStep e fname feat newHash (s\<lparr>out := out s @ [BUILD fname]\<rparr>))))"

fun buildLoop ::
  "env \<Rightarrow> BuilderConfig \<Rightarrow> string list \<Rightarrow> run_state \<Rightarrow> (error \<times> run_state) + run_state" where
  "buildLoop e cfg [] s = Inr s"
| "buildLoop e cfg (fname # rest) s =
     (case buildStep e cfg fname s of
        Inl err \<Rightarrow> Inl err
      | Inr s' \<Rightarrow> buildLoop e cfg rest s')"

definition init_run :: "(string \<rightharpoonup> string) \<Rightarrow> run_state" where
  "init_run files = \<lparr>store = files, hashCache = Map.empty, out = [], builds = []\<rparr>"

text \<open>A whole run for one requested feature, from the cache files it finds.\<close>

definition BuildFeature ::
  "env \<Rightarrow> BuilderConfig \<Rightarrow> string \<Rightarrow> (string \<rightharpoonup> string) \<Rightarrow> (error \<times> run_state) + run_state" where
  "BuildFeature e cfg featureName files =
     (case Resolve cfg featureName of
        Inl err \<Rightarrow> Inl (DependencyError err, init_run files)
      | Inr buildOrder \<Rightarrow> buildLoop e cfg buildOrder (init_run files))"

definition final_state :: "(error \<times> run_state) + run_state \<Rightarrow> run_state" where
  "final_state r = (case r of Inl (err, s) \<Rightarrow> s | Inr s \<Rightarrow> s)"

definition failure :: "(error \<times> run_state) + run_state \<Rightarrow> error option" where
  "failure r = (case r of Inl (err, s) \<Rightarrow> Some err | Inr s \<Rightarrow> None)"

text \<open>The fingerprint an iteration computes for a feature in state \<open>s\<close>.\<close>

definition fingerprint_of :: "env \<Rightarrow> Feature \<Rightarrow> run_state \<Rightarrow> error + string" where
  "fingerprint_of e feat s = ComputeFeatureHash e feat (collectDepHashes (hashCache s) (DependsOn feat))"

section \<open>Vocabulary of the properties\<close>

text \<open>
  In a per-run map, the fingerprint recorded for a feature is the one computed from the
  fingerprints the same map records for its dependencies.
\<close>

definition folds_own_run :: "env \<Rightarrow> BuilderConfig \<Rightarrow> (string \<rightharpoonup> string) \<Rightarrow> string \<Rightarrow> bool" where
  "folds_own_run e cfg hc f =
     (\<exists>feat h. fmlookup cfg f = Some feat \<and> hc f = Some h \<and>
        ComputeFeatureHash e feat (collectDepHashes hc (DependsOn feat)) = Inr h)"

text \<open>The \<^verbatim>\<open>dependsOn\<close> edges of a graph and of a registry, and what a target reaches.\<close>

definition dep_edges :: "graph \<Rightarrow> (string \<times> string) set" where
  "dep_edges g = {(a, b). b \<in> set (graph_at g a)}"

definition depends :: "BuilderConfig \<Rightarrow> (string \<times> string) set" where
  "depends cfg = {(a, b). \<exists>f. fmlookup cfg a = Some f \<and> b \<in> set (DependsOn f)}"

definition reachable :: "BuilderConfig \<Rightarrow> string \<Rightarrow> string set" where
  "reachable cfg target = (depends cfg)\<^sup>* `` {target}"

text \<open>Every name in the \<^verbatim>\<open>dependsOn\<close> list of a feature reached from the target is a key.\<close>

definition references_resolved :: "BuilderConfig \<Rightarrow> string \<Rightarrow> bool" where
  "references_resolved cfg target =
     (\<forall>a b. a \<in> reachable cfg target \<and> (a, b) \<in> depends cfg \<longrightarrow> fmlookup cfg b \<noteq> None)"

text \<open>
  \<open>b\<close> stands before the first occurrence of \<open>a\<close> in the list; the index of the first
  occurrence of \<open>a\<close> (the length of the list when there is none).
\<close>

definition precedes :: "string list \<Rightarrow> string \<Rightarrow> string \<Rightarrow> bool" where
  "precedes xs b a = (a \<in> set xs \<and> b \<in> set (takeWhile (\<lambda>x. x \<noteq> a) xs))"

definition position :: "string list \<Rightarrow> string \<Rightarrow> nat" where
  "position xs a = length (takeWhile (\<lambda>x. x \<noteq> a) xs)"

text \<open>
  The invariant of the traversal: the order lists exactly the finished nodes, once each,
  no finished node is in progress, and every dependency of a finished node stands before
  it.
\<close>

definition topo_inv :: "graph \<Rightarrow> ts_state \<Rightarrow> bool" where
  "topo_inv g s =
     (distinct (order s) \<and> set (order s) = visited s \<and> visited s \<inter> temp s = {} \<and>
      (\<forall>a \<in> visited s. \<forall>b \<in> set (graph_at g a). precedes (order s) b a))"

text \<open>
  When an error of the traversal is justified from a set of start nodes: a cycle error
  names a node on a cycle reached from them, an unknown-dependency error a name that is
  no key and is reached from them.
\<close>

fun dep_error :: "graph \<Rightarrow> string set \<Rightarrow> error \<Rightarrow> bool" where
  "dep_error g S (CycleError c) = ((c, c) \<in> (dep_edges g)\<^sup>+ \<and> (\<exists>n \<in> S. (n, c) \<in> (dep_edges g)\<^sup>*))"
| "dep_error g S (UnknownDependencyError d) = (fmlookup g d = None \<and> (\<exists>n \<in> S. (n, d) \<in> (dep_edges g)\<^sup>*))"
| "dep_error g S e = False"


definition readable :: "env \<Rightarrow> string list \<Rightarrow> bool" where
  "readable e files = list_all (\<lambda>f. readFile e f \<noteq> None) files"

text \<open>
  The combining rule as the specification words it (step 3 of section 4.2): the
  dependency fingerprints, paired with the names in \<^verbatim>\<open>dependsOn\<close>, sorted by name and folded
  in that order. For comparison with \<open>ComputeFeatureHash\<close> only.
\<close>

definition depHashesByName :: "string list \<Rightarrow> string list \<Rightarrow> string list" where
  "depHashesByName names hashes = map snd (sort_key fst (zip names hashes))"

definition Fingerprint_by_name :: "env \<Rightarrow> Feature \<Rightarrow> string list \<Rightarrow> error + string" where
  "Fingerprint_by_name e feat depHashes =
     (case hashInputs e (Inputs feat) (Command feat) of
        Inl err \<Rightarrow> Inl err
      | Inr h \<Rightarrow> Inr (sha256hex e (foldl (@) h (depHashesByName (DependsOn feat) depHashes))))"

section \<open>Example registries and environments\<close>

text \<open>
  In the examples the digest is the injective stand-in \<open>bytes \<mapsto> sha256:bytes\<close>: what is
  shown equal below is equal for every digest function, and what is shown different
  differs for a digest without collisions.
\<close>

definition tree_env :: "(string \<times> string) list \<Rightarrow> env" where
  "tree_env files =
     \<lparr>walk = (\<lambda>dir. if dir = ''dir'' then Some (map fst files) else None),
      readFile = map_of files,
      sha256hex = (\<lambda>bytes. ''sha256:'' @ bytes),
      dockerBuild = (\<lambda>tag ctx. True),
      cacheWritable = (\<lambda>path. True)\<rparr>"

definition demo_env :: "(string \<Rightarrow> string \<Rightarrow> bool) \<Rightarrow> (string \<Rightarrow> bool) \<Rightarrow> env" where
  "demo_env docker writable =
     \<lparr>walk = (\<lambda>dir. if dir = ''dirX'' then Some [''dirX/b'', ''dirX/a'']
                    else if dir = ''dirY'' then Some [''dirY/main''] else None),
      readFile = map_of [(''dirX/a'', ''alpha''), (''dirX/b'', ''beta''), (''dirY/main'', ''gamma'')],
      sha256hex = (\<lambda>bytes. ''sha256:'' @ bytes),
      dockerBuild = docker,
      cacheWritable = writable\<rparr>"

definition ok_env :: env where
  "ok_env = demo_env (\<lambda>tag ctx. True) (\<lambda>path. True)"

definition readonly_env :: env where
  "readonly_env = demo_env (\<lambda>tag ctx. True) (\<lambda>path. False)"

definition failing_env :: env where
  "failing_env = demo_env (\<lambda>tag ctx. ctx \<noteq> ''dirY'') (\<lambda>path. True)"

definition edited_env :: env where
  "edited_env = ok_env\<lparr>readFile :=
     map_of [(''dirX/a'', ''alphA''), (''dirX/b'', ''beta''), (''dirY/main'', ''gamma'')]\<rparr>"

definition edited_failing_env :: env where
  "edited_failing_env = edited_env\<lparr>dockerBuild := (\<lambda>tag ctx. ctx \<noteq> ''dirY'')\<rparr>"

definition edited_broken_env :: env where
  "edited_broken_env = edited_env\<lparr>dockerBuild := (\<lambda>tag ctx. False)\<rparr>"

definition swap_env :: "string \<Rightarrow> string \<Rightarrow> env" where
  "swap_env x y =
     \<lparr>walk = (\<lambda>dir. if dir = ''dirA'' then Some [''dirA/f'']
                    else if dir = ''dirB'' then Some [''dirB/f'']
                    else if dir = ''dirApp'' then Some [''dirApp/f''] else None),
      readFile = map_of [(''dirA/f'', x), (''dirB/f'', y), (''dirApp/f'', ''main'')],
      sha256hex = (\<lambda>bytes. ''sha256:'' @ bytes),
      dockerBuild = (\<lambda>tag ctx. True),
      cacheWritable = (\<lambda>path. True)\<rparr>"

definition demo_cfg :: BuilderConfig where
  "demo_cfg = fmap_of_list
     [(''base'', \<lparr>Name = ''base'', Inputs = [''dirX''], Command = ''c1'', DependsOn = []\<rparr>),
      (''app'', \<lparr>Name = ''app'', Inputs = [''dirY''], Command = ''c2'', DependsOn = [''base'']\<rparr>)]"

definition dangling_cfg :: BuilderConfig where
  "dangling_cfg = fmap_of_list
     [(''app'', \<lparr>Name = ''app'', Inputs = [''dirY''], Command = ''c2'', DependsOn = [''base'']\<rparr>)]"

definition cycle_cfg :: BuilderConfig where
  "cycle_cfg = fmap_of_list
     [(''A'', \<lparr>Name = ''A'', Inputs = [''dirA''], Command = ''c1'', DependsOn = [''B'']\<rparr>),
      (''B'', \<lparr>Name = ''B'', Inputs = [''dirB''], Command = ''c2'', DependsOn = [''A'']\<rparr>)]"

definition cycle_dangling_cfg :: BuilderConfig where
  "cycle_dangling_cfg = fmap_of_list
     [(''A'', \<lparr>Name = ''A'', Inputs = [''dirA''], Command = ''c1'', DependsOn = [''ghost'', ''B'']\<rparr>),
      (''B'', \<lparr>Name = ''B'', Inputs = [''dirB''], Command = ''c2'', DependsOn = [''A'']\<rparr>)]"

definition noinput_cfg :: BuilderConfig where
  "noinput_cfg = fmap_of_list
     [(''all'', \<lparr>Name = ''all'', Inputs = [], Command = ''make all'', DependsOn = []\<rparr>)]"

definition unreadable_cfg :: BuilderConfig where
  "unreadable_cfg = fmap_of_list
     [(''lib'', \<lparr>Name = ''lib'', Inputs = [''nowhere''], Command = ''make lib'', DependsOn = []\<rparr>)]"

definition swap_cfg :: BuilderConfig where
  "swap_cfg = fmap_of_list
     [(''a'', \<lparr>Name = ''a'', Inputs = [''dirA''], Command = ''make lib'', DependsOn = []\<rparr>),
      (''b'', \<lparr>Name = ''b'', Inputs = [''dirB''], Command = ''make lib'', DependsOn = []\<rparr>),
      (''app'', \<lparr>Name = ''app'', Inputs = [''dirApp''], Command = ''make app'', DependsOn = [''a'', ''b'']\<rparr>)]"

definition two_deps :: Feature where
  "two_deps = \<lparr>Name = ''app'', Inputs = [''dirY'', ''dirX''], Command = ''c2'', DependsOn = [''a'', ''b'']\<rparr>"


definition base_feature :: Feature where
  "base_feature = \<lparr>Name = ''base'', Inputs = [''dirX''], Command = ''c1'', DependsOn = []\<rparr>"


section \<open>Evaluation rules\<close>

lemma final_state_simps [simp]:
  "final_state (Inl (err, s)) = s" "final_state (Inr s) = s"
  by (simp_all add: final_state_def)

lemma failure_simps [simp]:
  "failure (Inl (err, s)) = Some err" "failure (Inr s) = None"
  by (simp_all add: failure_def)

lemmas resolve_eval = Resolve_def buildGraph_def init_ts_def graph_at_def topoSort.simps

lemmas run_eval = BuildFeature_def resolve_eval init_run_def buildStep_def dockerStep_def writeCache_def
  ComputeFeatureHash_def HashDir_def collectDepHashes_def ReadFeatureHash_def WriteFeatureHash_def
  FeatureHashPath_def Let_def

lemmas env_eval = ok_env_def readonly_env_def failing_env_def edited_failing_env_def
  edited_broken_env_def edited_env_def demo_env_def

section \<open>The traversal: invariant and errors\<close>

lemma precedes_append: "precedes xs b a \<Longrightarrow> precedes (xs @ ys) b a"
  by (auto simp: precedes_def takeWhile_append1)

lemma precedes_snoc: "a \<notin> set xs \<Longrightarrow> b \<in> set xs \<Longrightarrow> precedes (xs @ [a]) b a"
proof -
  assume a: "a \<notin> set xs" and b: "b \<in> set xs"
  have "takeWhile (\<lambda>x. x \<noteq> a) (xs @ [a]) = xs @ takeWhile (\<lambda>x. x \<noteq> a) [a]"
    using a by (intro takeWhile_append2) auto
  with b show ?thesis by (simp add: precedes_def)
qed

lemma precedes_position: "precedes xs b a \<Longrightarrow> b \<in> set xs \<and> position xs b < position xs a"
proof -
  assume p: "precedes xs b a"
  let ?p = "takeWhile (\<lambda>x. x \<noteq> a) xs"
  from p have b: "b \<in> set ?p" by (simp add: precedes_def)
  have "takeWhile (\<lambda>x. x \<noteq> b) (?p @ dropWhile (\<lambda>x. x \<noteq> a) xs) = takeWhile (\<lambda>x. x \<noteq> b) ?p"
    using b by (intro takeWhile_append1[where x=b]) auto
  then have e: "takeWhile (\<lambda>x. x \<noteq> b) xs = takeWhile (\<lambda>x. x \<noteq> b) ?p" by simp
  have "takeWhile (\<lambda>x. x \<noteq> b) ?p \<noteq> ?p"
    using b by (metis (mono_tags, lifting) takeWhile_eq_all_conv)
  moreover have "length (takeWhile (\<lambda>x. x \<noteq> b) ?p) \<le> length ?p" by (rule length_takeWhile_le)
  ultimately have "length (takeWhile (\<lambda>x. x \<noteq> b) ?p) < length ?p"
    by (metis le_neq_implies_less takeWhile_eq_take take_all_iff order_refl)
  with e have "position xs b < position xs a" by (simp add: position_def)
  moreover from b have "b \<in> set xs" by (rule set_takeWhileD[THEN conjunct1])
  ultimately show ?thesis by simp
qed

lemma topoSort_post:
  "topo_inv g s \<Longrightarrow> topoSort g node s = Inr s' \<Longrightarrow>
     topo_inv g s' \<and> temp s' = temp s \<and> node \<in> visited s' \<and> visited s \<subseteq> visited s' \<and>
     visited s' \<subseteq> visited s \<union> (dep_edges g)\<^sup>* `` {node}"
  "topo_inv g s \<Longrightarrow> topoSort_range g deps s = Inr s' \<Longrightarrow>
     topo_inv g s' \<and> temp s' = temp s \<and> set deps \<subseteq> visited s' \<and> visited s \<subseteq> visited s' \<and>
     visited s' \<subseteq> visited s \<union> (dep_edges g)\<^sup>* `` set deps"
proof (induction g node s and g deps s arbitrary: s' and s' rule: topoSort_topoSort_range.induct)
  case (1 g node s)
  show ?case
  proof (cases "node \<in> visited s")
    case True
    with "1.prems" show ?thesis by (auto simp: topoSort.simps split: if_splits)
  next
    case False
    from "1.prems" have nt: "node \<notin> temp s" by (auto simp: topoSort.simps split: if_splits)
    let ?s0 = "s\<lparr>temp := insert node (temp s)\<rparr>"
    from "1.prems" False nt obtain s1 where
      r: "topoSort_range g (graph_at g node) ?s0 = Inr s1"
      and s': "s' = s1\<lparr>temp := temp s1 - {node}, visited := insert node (visited s1), order := order s1 @ [node]\<rparr>"
      by (auto simp: topoSort.simps split: sum.splits)
    have inv0: "topo_inv g ?s0" using "1.prems"(1) False by (auto simp: topo_inv_def)
    from "1.IH"[OF nt False inv0 r]
    have inv1: "topo_inv g s1" and t1: "temp s1 = insert node (temp s)"
      and d1: "set (graph_at g node) \<subseteq> visited s1" and m1: "visited s \<subseteq> visited s1"
      and r1: "visited s1 \<subseteq> visited s \<union> (dep_edges g)\<^sup>* `` set (graph_at g node)"
      by auto
    from inv1 t1 have n1: "node \<notin> visited s1" "node \<notin> set (order s1)"
      by (auto simp: topo_inv_def)
    have "topo_inv g s'"
      unfolding topo_inv_def
    proof (intro conjI ballI)
      show "distinct (order s')" using inv1 n1 s' by (simp add: topo_inv_def)
      show "set (order s') = visited s'" using inv1 s' by (auto simp: topo_inv_def)
      show "visited s' \<inter> temp s' = {}" using inv1 s' t1 nt by (auto simp: topo_inv_def)
    next
      fix a b assume a: "a \<in> visited s'" and b: "b \<in> set (graph_at g a)"
      show "precedes (order s') b a"
      proof (cases "a = node")
        case True
        with b d1 inv1 have "b \<in> set (order s1)" by (auto simp: topo_inv_def)
        with n1 True s' show ?thesis by (simp add: precedes_snoc)
      next
        case False
        with a s' have "a \<in> visited s1" by simp
        with inv1 b have "precedes (order s1) b a" by (simp add: topo_inv_def)
        then show ?thesis using s' by (simp add: precedes_append)
      qed
    qed
    moreover have "temp s' = temp s" using s' t1 nt by auto
    moreover have "node \<in> visited s'" using s' by simp
    moreover have "visited s \<subseteq> visited s'" using s' m1 by auto
    moreover have "visited s' \<subseteq> visited s \<union> (dep_edges g)\<^sup>* `` {node}"
    proof
      fix x assume "x \<in> visited s'"
      then consider "x = node" | "x \<in> visited s"
        | d where "d \<in> set (graph_at g node)" "(d, x) \<in> (dep_edges g)\<^sup>*"
        using s' r1 by auto
      then show "x \<in> visited s \<union> (dep_edges g)\<^sup>* `` {node}"
      proof cases
        case 3
        then have "(node, d) \<in> dep_edges g" by (simp add: dep_edges_def)
        with 3 have "(node, x) \<in> (dep_edges g)\<^sup>*" by (meson converse_rtrancl_into_rtrancl)
        then show ?thesis by auto
      qed auto
    qed
    ultimately show ?thesis by blast
  qed
next
  case (2 g s)
  then show ?case by simp
next
  case (3 g dep deps s)
  from "3.prems" obtain s1 where k: "fmlookup g dep \<noteq> None"
    and a: "topoSort g dep s = Inr s1" and b: "topoSort_range g deps s1 = Inr s'"
    by (auto split: if_splits sum.splits)
  note A = "3.IH"(1)[OF k "3.prems"(1) a]
  then have inv1: "topo_inv g s1" by simp
  note B = "3.IH"(2)[OF k a inv1 b]
  have "visited s' \<subseteq> visited s \<union> (dep_edges g)\<^sup>* `` set (dep # deps)"
  proof
    fix x assume "x \<in> visited s'"
    with B have "x \<in> visited s1 \<or> x \<in> (dep_edges g)\<^sup>* `` set deps" by auto
    with A have "x \<in> visited s \<or> x \<in> (dep_edges g)\<^sup>* `` {dep} \<or> x \<in> (dep_edges g)\<^sup>* `` set deps"
      by auto
    then show "x \<in> visited s \<union> (dep_edges g)\<^sup>* `` set (dep # deps)" by auto
  qed
  moreover have "set (dep # deps) \<subseteq> visited s'" using A B by auto
  moreover have "visited s \<subseteq> visited s'" using A B by auto
  ultimately show ?case using A B by simp
qed

lemma topoSort_temp:
  "topoSort g node s = Inr s' \<Longrightarrow> temp s' = temp s"
  "topoSort_range g deps s = Inr s' \<Longrightarrow> temp s' = temp s"
proof (induction g node s and g deps s arbitrary: s' and s' rule: topoSort_topoSort_range.induct)
  case (1 g node s)
  show ?case
  proof (cases "node \<in> temp s \<or> node \<in> visited s")
    case True
    with "1.prems" show ?thesis by (auto simp: topoSort.simps split: if_splits)
  next
    case False
    then obtain s1 where r: "topoSort_range g (graph_at g node) (s\<lparr>temp := insert node (temp s)\<rparr>) = Inr s1"
      and s': "s' = s1\<lparr>temp := temp s1 - {node}, visited := insert node (visited s1), order := order s1 @ [node]\<rparr>"
      using "1.prems" by (auto simp: topoSort.simps split: sum.splits)
    from False r have "temp s1 = insert node (temp s)"
      using "1.IH"[of s1] by simp
    with False s' show ?thesis by auto
  qed
next
  case (2 g s)
  then show ?case by simp
next
  case (3 g dep deps s)
  from "3.prems" obtain s1 where k: "fmlookup g dep \<noteq> None"
    and a: "topoSort g dep s = Inr s1" and b: "topoSort_range g deps s1 = Inr s'"
    by (auto split: if_splits sum.splits)
  from "3.IH"(1)[OF k a] "3.IH"(2)[OF k a b] show ?case by simp
qed

lemma dep_error_mono: "dep_error g S e \<Longrightarrow> S \<subseteq> T \<Longrightarrow> dep_error g T e"
  by (cases e) auto

lemma dep_error_step:
  "dep_error g (set (graph_at g node)) e \<Longrightarrow> dep_error g {node} e"
proof (cases e)
  case (CycleError c)
  assume "dep_error g (set (graph_at g node)) e"
  with CycleError obtain n where c: "(c, c) \<in> (dep_edges g)\<^sup>+" and n: "n \<in> set (graph_at g node)"
    and r: "(n, c) \<in> (dep_edges g)\<^sup>*" by auto
  from n have "(node, n) \<in> dep_edges g" by (simp add: dep_edges_def)
  with r have "(node, c) \<in> (dep_edges g)\<^sup>*" by (meson converse_rtrancl_into_rtrancl)
  with c CycleError show ?thesis by simp
next
  case (UnknownDependencyError d)
  assume "dep_error g (set (graph_at g node)) e"
  with UnknownDependencyError obtain n where c: "fmlookup g d = None" and n: "n \<in> set (graph_at g node)"
    and r: "(n, d) \<in> (dep_edges g)\<^sup>*" by auto
  from n have "(node, n) \<in> dep_edges g" by (simp add: dep_edges_def)
  with r have "(node, d) \<in> (dep_edges g)\<^sup>*" by (meson converse_rtrancl_into_rtrancl)
  with c UnknownDependencyError show ?thesis by simp
qed auto

text \<open>
  Every node in progress reaches the node being visited, so an error is justified: the
  node found in progress lies on a cycle, and a missing name was read from the
  \<^verbatim>\<open>dependsOn\<close> list of a node reached from the start.
\<close>

lemma topoSort_error:
  "topoSort g node s = Inl e \<Longrightarrow> \<forall>t \<in> temp s. (t, node) \<in> (dep_edges g)\<^sup>+ \<Longrightarrow> dep_error g {node} e"
  "topoSort_range g deps s = Inl e \<Longrightarrow> \<forall>t \<in> temp s. \<forall>d \<in> set deps. (t, d) \<in> (dep_edges g)\<^sup>+ \<Longrightarrow>
     dep_error g (set deps) e"
proof (induction g node s and g deps s arbitrary: e and e rule: topoSort_topoSort_range.induct)
  case (1 g node s)
  show ?case
  proof (cases "node \<in> temp s")
    case True
    with "1.prems" show ?thesis by (auto simp: topoSort.simps)
  next
    case False
    with "1.prems"(1) have nv: "node \<notin> visited s"
      and r: "topoSort_range g (graph_at g node) (s\<lparr>temp := insert node (temp s)\<rparr>) = Inl e"
      by (auto simp: topoSort.simps split: if_splits sum.splits)
    have "\<forall>t \<in> temp (s\<lparr>temp := insert node (temp s)\<rparr>). \<forall>d \<in> set (graph_at g node). (t, d) \<in> (dep_edges g)\<^sup>+"
    proof (intro ballI)
      fix t d assume t: "t \<in> temp (s\<lparr>temp := insert node (temp s)\<rparr>)" and d: "d \<in> set (graph_at g node)"
      from d have e: "(node, d) \<in> dep_edges g" by (simp add: dep_edges_def)
      from t have "t = node \<or> (t, node) \<in> (dep_edges g)\<^sup>+" using "1.prems"(2) by auto
      with e show "(t, d) \<in> (dep_edges g)\<^sup>+" by (auto intro: trancl_into_trancl)
    qed
    from "1.IH"[OF False nv r this] show ?thesis by (rule dep_error_step)
  qed
next
  case (2 g s)
  then show ?case by simp
next
  case (3 g dep deps s)
  show ?case
  proof (cases "fmlookup g dep = None")
    case True
    with "3.prems"(1) show ?thesis by auto
  next
    case False
    show ?thesis
    proof (cases "topoSort g dep s")
      case (Inl e')
      with False "3.prems"(1) have "e' = e" by auto
      with Inl "3.IH"(1)[OF False, of e] "3.prems"(2) have "dep_error g {dep} e" by simp
      then show ?thesis by (rule dep_error_mono) simp
    next
      case (Inr s1)
      with False "3.prems"(1) have r: "topoSort_range g deps s1 = Inl e" by auto
      from Inr have "temp s1 = temp s" by (rule topoSort_temp(1))
      with "3.prems"(2) have "\<forall>t \<in> temp s1. \<forall>d \<in> set deps. (t, d) \<in> (dep_edges g)\<^sup>+" by simp
      from "3.IH"(2)[OF False Inr r this] show ?thesis by (rule dep_error_mono) auto
    qed
  qed
qed

lemma graph_at_buildGraph:
  "graph_at (buildGraph cfg) a = (case fmlookup cfg a of None \<Rightarrow> [] | Some f \<Rightarrow> DependsOn f)"
  by (simp add: graph_at_def buildGraph_def split: option.splits)

lemma dep_edges_buildGraph: "dep_edges (buildGraph cfg) = depends cfg"
  by (auto simp: dep_edges_def depends_def graph_at_buildGraph split: option.splits) metis

lemma fmlookup_buildGraph_None: "fmlookup (buildGraph cfg) a = None \<longleftrightarrow> fmlookup cfg a = None"
  by (simp add: buildGraph_def)

lemma topo_inv_init: "topo_inv g init_ts"
  by (simp add: topo_inv_def init_ts_def)

lemma topo_inv_descend:
  assumes inv: "topo_inv g s" and a: "a \<in> visited s" and r: "(a, b) \<in> (dep_edges g)\<^sup>+"
  shows "b \<in> visited s \<and> position (order s) b < position (order s) a"
  using r
proof (induction rule: trancl_induct)
  case (base y)
  then have "y \<in> set (graph_at g a)" by (simp add: dep_edges_def)
  with inv a have "precedes (order s) y a" by (simp add: topo_inv_def)
  from precedes_position[OF this] inv show ?case by (simp add: topo_inv_def)
next
  case (step y z)
  then have y: "y \<in> visited s" and "z \<in> set (graph_at g y)" by (simp_all add: dep_edges_def)
  with inv have "precedes (order s) z y" by (simp add: topo_inv_def)
  from precedes_position[OF this] inv step.IH show ?case by (auto simp: topo_inv_def)
qed

lemma topo_inv_no_cycle: "topo_inv g s \<Longrightarrow> a \<in> visited s \<Longrightarrow> (a, a) \<notin> (dep_edges g)\<^sup>+"
  using topo_inv_descend[of g s a a] by auto

lemma topo_inv_closed:
  "topo_inv g s \<Longrightarrow> a \<in> visited s \<Longrightarrow> (a, b) \<in> (dep_edges g)\<^sup>* \<Longrightarrow> b \<in> visited s"
  using topo_inv_descend[of g s a b] by (auto simp: rtrancl_eq_or_trancl)

text \<open>What a returned order is, for any registry, and what a returned error means.\<close>

lemma Resolve_Inr:
  assumes "Resolve cfg target = Inr xs"
  shows "distinct xs" and "set xs = reachable cfg target"
    and "(a, b) \<in> depends cfg \<Longrightarrow> a \<in> set xs \<Longrightarrow> precedes xs b a"
    and "c \<in> set xs \<Longrightarrow> (c, c) \<notin> (depends cfg)\<^sup>+"
proof -
  let ?g = "buildGraph cfg"
  from assms obtain s where r: "topoSort ?g target init_ts = Inr s" and xs: "xs = order s"
    by (auto simp: Resolve_def split: sum.splits)
  from topoSort_post(1)[OF topo_inv_init r]
  have inv: "topo_inv ?g s" and t: "target \<in> visited s"
    and sub: "visited s \<subseteq> (dep_edges ?g)\<^sup>* `` {target}"
    by (auto simp: init_ts_def)
  from inv xs show "distinct xs" by (simp add: topo_inv_def)
  have "(dep_edges ?g)\<^sup>* `` {target} \<subseteq> visited s"
    using topo_inv_closed[OF inv t] by auto
  with sub inv xs show "set xs = reachable cfg target"
    by (auto simp: topo_inv_def reachable_def dep_edges_buildGraph)
  show "precedes xs b a" if "(a, b) \<in> depends cfg" "a \<in> set xs"
  proof -
    from that(1) have "b \<in> set (graph_at ?g a)"
      by (simp add: dep_edges_buildGraph[symmetric] dep_edges_def)
    with that(2) inv xs show ?thesis by (simp add: topo_inv_def)
  qed
  show "(c, c) \<notin> (depends cfg)\<^sup>+" if "c \<in> set xs"
    using topo_inv_no_cycle[OF inv, of c] that inv xs
    by (simp add: topo_inv_def dep_edges_buildGraph)
qed

lemma Resolve_Inl:
  assumes "Resolve cfg target = Inl e"
  shows "dep_error (buildGraph cfg) {target} e"
proof -
  from assms have "topoSort (buildGraph cfg) target init_ts = Inl e"
    by (auto simp: Resolve_def split: sum.splits)
  then show ?thesis by (rule topoSort_error(1)) (simp add: init_ts_def)
qed

lemma acyclic_single: "a \<noteq> b \<Longrightarrow> acyclic {(a, b)}"
  by (simp add: acyclic_insert) (simp add: acyclic_def)

lemma depends_demo_cfg: "depends demo_cfg = {(''app'', ''base'')}"
  by (auto simp: depends_def demo_cfg_def split: if_splits)

lemma depends_dangling_cfg: "depends dangling_cfg = {(''app'', ''base'')}"
  by (auto simp: depends_def dangling_cfg_def split: if_splits)

lemma depends_cycle_cfg: "depends cycle_cfg = {(''A'', ''B''), (''B'', ''A'')}"
  by (auto simp: depends_def cycle_cfg_def split: if_splits)

lemma depends_cycle_dangling_cfg:
  "depends cycle_dangling_cfg = {(''A'', ''ghost''), (''A'', ''B''), (''B'', ''A'')}"
  by (auto simp: depends_def cycle_dangling_cfg_def split: if_splits)

section \<open>Claims about \<open>Resolve\<close>\<close>

text \<open>
  Claim C1, as amended. For every acyclic registry in which every name in the
  \<^verbatim>\<open>dependsOn\<close> list of a feature reached from the target is itself a key, and every target
  present in it, \<open>Resolve\<close> returns a build order that contains each feature reachable from
  the target exactly once, contains nothing else, and places every dependency strictly
  before every feature that depends on it (\<open>position\<close> is the index in the order).
\<close>

theorem Resolve_topological_order:
  assumes acyc: "acyclic (depends cfg)"
    and present: "fmlookup cfg target \<noteq> None"
    and resolved: "references_resolved cfg target"
  shows "\<exists>xs. Resolve cfg target = Inr xs \<and> distinct xs \<and> set xs = reachable cfg target \<and>
           (\<forall>a \<in> set xs. fmlookup cfg a \<noteq> None) \<and>
           (\<forall>a \<in> set xs. \<forall>b. (a, b) \<in> depends cfg \<longrightarrow>
              b \<in> set xs \<and> position xs b < position xs a)"
proof (cases "Resolve cfg target")
  case (Inr xs)
  note R = Resolve_Inr[OF Inr]
  have keys: "fmlookup cfg a \<noteq> None" if "a \<in> set xs" for a
  proof -
    from that R(2) have "(target, a) \<in> (depends cfg)\<^sup>*" by (simp add: reachable_def)
    then show ?thesis
    proof (cases rule: rtranclE)
      case base
      with present show ?thesis by simp
    next
      case (step y)
      with resolved show ?thesis
        unfolding references_resolved_def reachable_def by blast
    qed
  qed
  have "b \<in> set xs \<and> position xs b < position xs a" if "a \<in> set xs" "(a, b) \<in> depends cfg" for a b
    using precedes_position[OF R(3)[OF that(2) that(1)]] .
  with R(1) R(2) keys Inr show ?thesis by blast
next
  case (Inl e)
  from Resolve_Inl[OF Inl] have d: "dep_error (buildGraph cfg) {target} e" .
  show ?thesis
  proof (cases e)
    case (CycleError c)
    with d have "(c, c) \<in> (depends cfg)\<^sup>+" by (simp add: dep_edges_buildGraph)
    with acyc show ?thesis by (simp add: acyclic_def)
  next
    case (UnknownDependencyError x)
    with d have n: "fmlookup cfg x = None" and r: "(target, x) \<in> (depends cfg)\<^sup>*"
      by (simp_all add: dep_edges_buildGraph fmlookup_buildGraph_None)
    from r present n obtain a where "(target, a) \<in> (depends cfg)\<^sup>*" "(a, x) \<in> depends cfg"
      by (metis rtranclE)
    with resolved have "fmlookup cfg x \<noteq> None"
      unfolding references_resolved_def reachable_def by blast
    with n show ?thesis by simp
  qed (use d in auto)
qed

theorem Resolve_topological_order_witness:
  "acyclic (depends demo_cfg) \<and> fmlookup demo_cfg ''app'' \<noteq> None \<and> references_resolved demo_cfg ''app'' \<and>
   (\<exists>xs. Resolve demo_cfg ''app'' = Inr xs \<and> distinct xs \<and> set xs = reachable demo_cfg ''app'' \<and>
      (\<forall>a \<in> set xs. fmlookup demo_cfg a \<noteq> None) \<and>
      (\<forall>a \<in> set xs. \<forall>b. (a, b) \<in> depends demo_cfg \<longrightarrow>
         b \<in> set xs \<and> position xs b < position xs a))"
proof -
  have h1: "acyclic (depends demo_cfg)"
    unfolding depends_demo_cfg by (rule acyclic_single) simp
  have h2: "fmlookup demo_cfg ''app'' \<noteq> None" by (simp add: demo_cfg_def)
  have h3: "references_resolved demo_cfg ''app''"
    by (auto simp: references_resolved_def depends_demo_cfg) (simp add: demo_cfg_def)
  from Resolve_topological_order[OF h1 h2 h3] h1 h2 h3 show ?thesis by blast
qed

text \<open>
  The claim as it stands fails on an acyclic registry with a dangling reference: the
  guard of \<open>topoSort_range\<close> returns the unknown-dependency error, and no order.
\<close>

theorem Resolve_dangling_counterexample:
  "acyclic (depends dangling_cfg) \<and> fmlookup dangling_cfg ''app'' \<noteq> None \<and>
   Resolve dangling_cfg ''app'' = Inl (UnknownDependencyError ''base'')"
proof -
  have "acyclic (depends dangling_cfg)"
    unfolding depends_dangling_cfg by (rule acyclic_single) simp
  moreover have "fmlookup dangling_cfg ''app'' \<noteq> None" by (simp add: dangling_cfg_def)
  moreover have "Resolve dangling_cfg ''app'' = Inl (UnknownDependencyError ''base'')"
    by (simp add: dangling_cfg_def resolve_eval)
  ultimately show ?thesis by simp
qed

text \<open>
  Claim C5. A name absent from the registry that is met in a \<^verbatim>\<open>dependsOn\<close> list is
  rejected with the unknown-dependency error (\<open>missing_dependency_rejected\<close>), but the
  requested target itself is never looked up: for an absent target \<open>Resolve\<close> returns the
  one-element order holding it, and the build loop then dereferences the nil feature.
\<close>

theorem absent_target_accepted:
  "fmlookup demo_cfg ''ghost'' = None \<and> Resolve demo_cfg ''ghost'' = Inr [''ghost''] \<and>
   failure (BuildFeature ok_env demo_cfg ''ghost'' Map.empty) = Some NilPointerPanic"
  by (simp add: demo_cfg_def run_eval)

lemma Resolve_absent_target: "fmlookup cfg target = None \<Longrightarrow> Resolve cfg target = Inr [target]"
  by (simp add: resolve_eval)

lemma missing_dependency_rejected:
  "fmlookup g dep = None \<Longrightarrow> topoSort_range g (dep # deps) s = Inl (UnknownDependencyError dep)"
  by simp

lemma Resolve_unknown_dependency:
  assumes "Resolve cfg target = Inl (UnknownDependencyError d)"
  shows "fmlookup cfg d = None \<and> d \<in> reachable cfg target"
  using Resolve_Inl[OF assms]
  by (simp add: dep_edges_buildGraph fmlookup_buildGraph_None reachable_def)

text \<open>
  Claim C6, as amended. For every registry with a dependency cycle reachable from the
  target, \<open>Resolve\<close> returns no build order: it fails. When every name in the
  \<^verbatim>\<open>dependsOn\<close> lists reached from the target is a key, the failure is a cycle error naming
  a node that is reachable from the target and lies on a cycle.
\<close>

theorem Resolve_cycle_fails:
  assumes reach: "(target, c) \<in> (depends cfg)\<^sup>*" and cyc: "(c, c) \<in> (depends cfg)\<^sup>+"
  shows "(\<exists>e. Resolve cfg target = Inl e) \<and>
         (references_resolved cfg target \<longrightarrow>
            (\<exists>n. Resolve cfg target = Inl (CycleError n) \<and> n \<in> reachable cfg target \<and>
                 (n, n) \<in> (depends cfg)\<^sup>+))"
proof (cases "Resolve cfg target")
  case (Inr xs)
  from Resolve_Inr(2)[OF Inr] reach have "c \<in> set xs" by (simp add: reachable_def)
  from Resolve_Inr(4)[OF Inr this] cyc show ?thesis by simp
next
  case (Inl e)
  from Resolve_Inl[OF Inl] have d: "dep_error (buildGraph cfg) {target} e" .
  have "\<exists>n. e = CycleError n \<and> n \<in> reachable cfg target \<and> (n, n) \<in> (depends cfg)\<^sup>+"
    if resolved: "references_resolved cfg target"
  proof (cases e)
    case (CycleError n)
    with d show ?thesis by (simp add: dep_edges_buildGraph reachable_def)
  next
    case (UnknownDependencyError x)
    with d have n: "fmlookup cfg x = None" and r: "(target, x) \<in> (depends cfg)\<^sup>*"
      by (simp_all add: dep_edges_buildGraph fmlookup_buildGraph_None)
    have "x \<noteq> target"
    proof
      assume "x = target"
      with n have "\<And>b. (target, b) \<notin> depends cfg" by (simp add: depends_def)
      then have "\<And>b. (target, b) \<in> (depends cfg)\<^sup>* \<Longrightarrow> b = target" by (metis converse_rtranclE)
      with reach have "c = target" by simp
      with cyc \<open>\<And>b. (target, b) \<notin> depends cfg\<close> show False by (metis tranclD)
    qed
    with r obtain a where "(target, a) \<in> (depends cfg)\<^sup>*" "(a, x) \<in> depends cfg"
      by (metis rtranclE)
    with resolved have "fmlookup cfg x \<noteq> None"
      unfolding references_resolved_def reachable_def by blast
    with n show ?thesis by simp
  qed (use d in auto)
  with Inl show ?thesis by auto
qed

theorem Resolve_cycle_fails_witness:
  "(''A'', ''A'') \<in> (depends cycle_cfg)\<^sup>* \<and> (''A'', ''A'') \<in> (depends cycle_cfg)\<^sup>+ \<and>
   references_resolved cycle_cfg ''A'' \<and>
   (\<exists>n. Resolve cycle_cfg ''A'' = Inl (CycleError n) \<and> n \<in> reachable cycle_cfg ''A'' \<and>
        (n, n) \<in> (depends cycle_cfg)\<^sup>+)"
proof -
  have h1: "(''A'', ''A'') \<in> (depends cycle_cfg)\<^sup>*" by simp
  have "(''A'', ''B'') \<in> depends cycle_cfg" "(''B'', ''A'') \<in> depends cycle_cfg"
    by (simp_all add: depends_cycle_cfg)
  then have h2: "(''A'', ''A'') \<in> (depends cycle_cfg)\<^sup>+" by (meson trancl.simps)
  have h3: "references_resolved cycle_cfg ''A''"
    by (auto simp: references_resolved_def depends_cycle_cfg) (simp_all add: cycle_cfg_def)
  from Resolve_cycle_fails[OF h1 h2] h1 h2 h3 show ?thesis by blast
qed

text \<open>
  The claim as it stands fails when a missing name is met before the cycle closes: the
  registry below has the cycle A, B, A, and resolving A stops at the missing name.
\<close>

theorem Resolve_cycle_counterexample:
  "(''A'', ''A'') \<in> (depends cycle_dangling_cfg)\<^sup>+ \<and>
   Resolve cycle_dangling_cfg ''A'' = Inl (UnknownDependencyError ''ghost'')"
proof -
  have "(''A'', ''B'') \<in> depends cycle_dangling_cfg" "(''B'', ''A'') \<in> depends cycle_dangling_cfg"
    by (simp_all add: depends_cycle_dangling_cfg)
  then have "(''A'', ''A'') \<in> (depends cycle_dangling_cfg)\<^sup>+" by (meson trancl.simps)
  moreover have "Resolve cycle_dangling_cfg ''A'' = Inl (UnknownDependencyError ''ghost'')"
    by (simp add: cycle_dangling_cfg_def resolve_eval)
  ultimately show ?thesis by simp
qed

lemma Resolve_two_cycle:
  "Resolve cycle_cfg ''A'' = Inl (CycleError ''A'')" "Resolve cycle_cfg ''B'' = Inl (CycleError ''B'')"
  by (simp_all add: cycle_cfg_def resolve_eval)

section \<open>Claims about fingerprinting\<close>

lemma foldl_append_concat: "foldl (@) h xs = h @ concat xs"
  by (induction xs arbitrary: h) simp_all

lemma hashInputs_digests:
  "list_all2 (\<lambda>input d. HashDir e input = Inr d) inputs digests \<Longrightarrow>
   hashInputs e inputs h = Inr (h @ concat digests)"
  by (induction inputs digests arbitrary: h rule: list_all2_induct) simp_all


lemma writeFileHashes_concat:
  "list_all (\<lambda>f. readFile e f \<noteq> None) fs \<Longrightarrow>
   writeFileHashes e fs h =
     Inr (h @ concat (map (\<lambda>f. case readFile e f of None \<Rightarrow> [] | Some c \<Rightarrow> sha256hex e c) fs))"
  by (induction fs arbitrary: h) (auto simp: HashFile_def)

lemma list_all_sort: "list_all P (sort xs) = list_all P (xs :: string list)"
  by (simp add: list_all_iff)


text \<open>
  The bytes digested by \<open>ComputeFeatureHash\<close> of \<^verbatim>\<open>cmd/apis/main.go\<close>: the raw command, the
  digests of the input directories in list order, then the dependency fingerprints in the
  order of their own values.
\<close>

lemma ComputeFeatureHash_folding_order:
  assumes "list_all2 (\<lambda>input d. HashDir e input = Inr d) (Inputs feat) digests"
  shows "ComputeFeatureHash e feat depHashes =
           Inr (sha256hex e (Command feat @ concat digests @ concat (sort depHashes)))"
  using hashInputs_digests[OF assms, of "Command feat"]
  by (simp add: ComputeFeatureHash_def foldl_append_concat)

lemma ComputeFeatureHash_folding_order_example:
  "list_all2 (\<lambda>input d. HashDir ok_env input = Inr d) (Inputs two_deps)
      [''sha256:gamma'', ''sha256:alphabeta''] \<and>
   ComputeFeatureHash ok_env two_deps [''ff'', ''00''] = Inr ''sha256:c2sha256:gammasha256:alphabeta00ff''"
proof -
  have h: "list_all2 (\<lambda>input d. HashDir ok_env input = Inr d) (Inputs two_deps)
      [''sha256:gamma'', ''sha256:alphabeta'']"
    by (simp add: HashDir_def env_eval two_deps_def)
  have "sha256hex ok_env = (\<lambda>bytes. ''sha256:'' @ bytes)" "Command two_deps = ''c2''"
    by (simp_all add: env_eval two_deps_def)
  with ComputeFeatureHash_folding_order[OF h, of "[''ff'', ''00'']"] h show ?thesis by simp
qed

lemma ComputeFeatureHash_permutation:
  "mset depHashes = mset depHashes' \<Longrightarrow>
   ComputeFeatureHash e feat depHashes = ComputeFeatureHash e feat depHashes'"
proof -
  assume "mset depHashes = mset depHashes'"
  then have "sort depHashes = sort depHashes'"
    by (intro properties_for_sort) simp_all
  then show ?thesis by (simp add: ComputeFeatureHash_def split: sum.splits)
qed

text \<open>
  Claim C3. The dependency fingerprints are to be sorted by the name of the dependency
  and folded in that order. \<open>ComputeFeatureHash\<close> of \<^verbatim>\<open>cmd/apis/main.go\<close> sorts the bare
  fingerprints by their value: for the dependencies a and b it folds 00 before ff whether
  ff belongs to a or to b, so the two assignments get one fingerprint; the order by name
  tells them apart.
\<close>

theorem ComputeFeatureHash_sorts_by_value:
  "ComputeFeatureHash (tree_env []) (two_deps\<lparr>Inputs := []\<rparr>) [''ff'', ''00''] = Inr ''sha256:c200ff'' \<and>
   ComputeFeatureHash (tree_env []) (two_deps\<lparr>Inputs := []\<rparr>) [''00'', ''ff''] = Inr ''sha256:c200ff'' \<and>
   Fingerprint_by_name (tree_env []) (two_deps\<lparr>Inputs := []\<rparr>) [''ff'', ''00''] = Inr ''sha256:c2ff00'' \<and>
   Fingerprint_by_name (tree_env []) (two_deps\<lparr>Inputs := []\<rparr>) [''00'', ''ff''] = Inr ''sha256:c200ff''"
  by (simp add: ComputeFeatureHash_def Fingerprint_by_name_def depHashesByName_def tree_env_def
      two_deps_def)

text \<open>
  Claim C4. The directory digest is to fold the digests of the single files. \<open>HashDir\<close>
  of \<^verbatim>\<open>internal/hash\<close> does so; \<open>HashDir\<close> of \<^verbatim>\<open>cmd/apis/main.go\<close>, which the build loop calls,
  copies the raw contents into one hasher, so that moving bytes from the end of one file
  to the start of the next leaves the digest unchanged.
\<close>

theorem HashDir_ignores_file_boundaries:
  "HashDir (tree_env [(''dir/a'', ''xy''), (''dir/b'', ''z'')]) ''dir'' = Inr ''sha256:xyz'' \<and>
   HashDir (tree_env [(''dir/a'', ''x''), (''dir/b'', ''yz'')]) ''dir'' = Inr ''sha256:xyz'' \<and>
   hash_HashDir (tree_env [(''dir/a'', ''xy''), (''dir/b'', ''z'')]) ''dir'' = Inr ''sha256:sha256:xysha256:z'' \<and>
   hash_HashDir (tree_env [(''dir/a'', ''x''), (''dir/b'', ''yz'')]) ''dir'' = Inr ''sha256:sha256:xsha256:yz''"
  by (simp add: HashDir_def hash_HashDir_def HashFile_def tree_env_def)

lemma hash_HashDir_file_digests:
  "walk e dir = Some files \<Longrightarrow> readable e files \<Longrightarrow>
   hash_HashDir e dir =
     Inr (sha256hex e (concat (map (\<lambda>f. case readFile e f of None \<Rightarrow> [] | Some c \<Rightarrow> sha256hex e c)
                                  (sort files))))"
  by (simp add: hash_HashDir_def readable_def writeFileHashes_concat list_all_sort)



section \<open>The build loop, one iteration\<close>

lemma FeatureHashPath_inj [simp]: "FeatureHashPath a = FeatureHashPath b \<longleftrightarrow> a = b"
  by (simp add: FeatureHashPath_def)

text \<open>The seven ways an iteration can go.\<close>

lemma buildStep_cases [case_names nil hasherr skip slice index failed built]:
  obtains
    (nil) "fmlookup cfg g = None" "buildStep e cfg g s = Inl (NilPointerPanic, s)"
  | (hasherr) feat err where "fmlookup cfg g = Some feat" "fingerprint_of e feat s = Inl err"
      "buildStep e cfg g s = Inl (HashError g err, s)"
  | (skip) feat h where "fmlookup cfg g = Some feat" "fingerprint_of e feat s = Inr h"
      "store s (FeatureHashPath g) = Some h"
      "buildStep e cfg g s = Inr (s\<lparr>out := out s @ [SKIP g], hashCache := (hashCache s)(g \<mapsto> h)\<rparr>)"
  | (slice) feat h where "fmlookup cfg g = Some feat" "fingerprint_of e feat s = Inr h"
      "store s (FeatureHashPath g) \<noteq> Some h" "length h < 8"
      "buildStep e cfg g s = Inl (SliceBoundsPanic, s\<lparr>out := out s @ [BUILD g]\<rparr>)"
  | (index) feat h where "fmlookup cfg g = Some feat" "fingerprint_of e feat s = Inr h"
      "store s (FeatureHashPath g) \<noteq> Some h" "8 \<le> length h" "Inputs feat = []"
      "buildStep e cfg g s = Inl (IndexRangePanic, s\<lparr>out := out s @ [BUILD g]\<rparr>)"
  | (failed) feat h ctx others where "fmlookup cfg g = Some feat" "fingerprint_of e feat s = Inr h"
      "store s (FeatureHashPath g) \<noteq> Some h" "8 \<le> length h" "Inputs feat = ctx # others"
      "\<not> dockerBuild e (g @ '':'' @ take 8 h) ctx"
      "buildStep e cfg g s = Inl (BuildExecutionError g,
          s\<lparr>out := out s @ [BUILD g], builds := builds s @ [(g @ '':'' @ take 8 h, ctx)]\<rparr>)"
  | (built) feat h ctx others where "fmlookup cfg g = Some feat" "fingerprint_of e feat s = Inr h"
      "store s (FeatureHashPath g) \<noteq> Some h" "8 \<le> length h" "Inputs feat = ctx # others"
      "dockerBuild e (g @ '':'' @ take 8 h) ctx"
      "buildStep e cfg g s = Inr (s\<lparr>out := out s @ [BUILD g],
          builds := builds s @ [(g @ '':'' @ take 8 h, ctx)],
          store := (if cacheWritable e (FeatureHashPath g) then (store s)(FeatureHashPath g \<mapsto> h) else store s),
          hashCache := (hashCache s)(g \<mapsto> h)\<rparr>)"
proof (cases "fmlookup cfg g")
  case None
  then show ?thesis using nil by (simp add: buildStep_def)
next
  case (Some feat)
  show ?thesis
  proof (cases "fingerprint_of e feat s")
    case (Inl err)
    with Some show ?thesis using hasherr by (simp add: buildStep_def fingerprint_of_def)
  next
    case (Inr h)
    show ?thesis
    proof (cases "store s (FeatureHashPath g) = Some h")
      case True
      with Some Inr show ?thesis using skip
        by (simp add: buildStep_def fingerprint_of_def ReadFeatureHash_def)
    next
      case False
      then have nr: "ReadFeatureHash (store s) g \<noteq> Inr h"
        by (auto simp: ReadFeatureHash_def split: option.splits)
      show ?thesis
      proof (cases "length h < 8")
        case True
        with Some Inr False nr show ?thesis using slice
          by (simp add: buildStep_def fingerprint_of_def dockerStep_def)
      next
        case long: False
        show ?thesis
        proof (cases "Inputs feat")
          case Nil
          with Some Inr False nr long show ?thesis using index
            by (simp add: buildStep_def fingerprint_of_def dockerStep_def)
        next
          case (Cons ctx others)
          show ?thesis
          proof (cases "dockerBuild e (g @ '':'' @ take 8 h) ctx")
            case True
            with Some Inr False nr long Cons show ?thesis using built[of feat h ctx others]
              by (simp add: buildStep_def fingerprint_of_def dockerStep_def Let_def writeCache_def
                  WriteFeatureHash_def)
          next
            case no: False
            with Some Inr False nr long Cons show ?thesis using failed[of feat h ctx others]
              by (simp add: buildStep_def fingerprint_of_def dockerStep_def Let_def)
          qed
        qed
      qed
    qed
  qed
qed


section \<open>Claims about the build loop\<close>

text \<open>
  Claim C7, as amended. For every feature in the build order that the loop reaches, whose
  fingerprint is computed and which has a first input path, the loop prints SKIP and runs
  no docker command exactly when the cache file is present and holds the fresh
  fingerprint; otherwise it prints BUILD and runs the docker command exactly once, and
  when that succeeds it hands the fresh fingerprint to \<open>WriteFeatureHash\<close>; in both cases
  that go on, the fingerprint is stored in the per-run map. (The fingerprint has at least
  eight characters: every SHA-256 hex digest has 64.)
\<close>

theorem buildStep_decision:
  assumes "fmlookup cfg f = Some feat" and "fingerprint_of e feat s = Inr h"
    and "8 \<le> length h" and "Inputs feat = ctx # others"
  shows "if ReadFeatureHash (store s) f = Inr h
         then buildStep e cfg f s =
                Inr (s\<lparr>out := out s @ [SKIP f], hashCache := (hashCache s)(f \<mapsto> h)\<rparr>)
         else if dockerBuild e (f @ '':'' @ take 8 h) ctx
         then buildStep e cfg f s =
                Inr (s\<lparr>out := out s @ [BUILD f],
                       builds := builds s @ [(f @ '':'' @ take 8 h, ctx)],
                       store := (case WriteFeatureHash e f h (store s) of
                                   Inl err \<Rightarrow> store s | Inr files \<Rightarrow> files),
                       hashCache := (hashCache s)(f \<mapsto> h)\<rparr>)
         else buildStep e cfg f s =
                Inl (BuildExecutionError f,
                     s\<lparr>out := out s @ [BUILD f],
                       builds := builds s @ [(f @ '':'' @ take 8 h, ctx)]\<rparr>)"
  using assms
  by (cases rule: buildStep_cases[of cfg f e s])
     (auto simp: WriteFeatureHash_def ReadFeatureHash_def split: option.splits)

theorem buildStep_decision_witness:
  "fmlookup demo_cfg ''base'' = Some base_feature \<and>
   fingerprint_of ok_env base_feature (init_run Map.empty) = Inr ''sha256:c1sha256:alphabeta'' \<and>
   8 \<le> length ''sha256:c1sha256:alphabeta'' \<and>
   Inputs base_feature = [''dirX''] \<and>
   ReadFeatureHash (store (init_run Map.empty)) ''base'' \<noteq> Inr ''sha256:c1sha256:alphabeta'' \<and>
   dockerBuild ok_env (''base'' @ '':'' @ take 8 ''sha256:c1sha256:alphabeta'') ''dirX'' \<and>
   out (final_state (buildStep ok_env demo_cfg ''base'' (init_run Map.empty))) = [BUILD ''base''] \<and>
   builds (final_state (buildStep ok_env demo_cfg ''base'' (init_run Map.empty))) =
     [(''base:sha256:c'', ''dirX'')] \<and>
   store (final_state (buildStep ok_env demo_cfg ''base'' (init_run Map.empty))) (FeatureHashPath ''base'') =
     Some ''sha256:c1sha256:alphabeta'' \<and>
   hashCache (final_state (buildStep ok_env demo_cfg ''base'' (init_run Map.empty))) ''base'' =
     Some ''sha256:c1sha256:alphabeta''"
proof -
  let ?h = "''sha256:c1sha256:alphabeta''"
  let ?s = "init_run Map.empty"
  have a1: "fmlookup demo_cfg ''base'' = Some base_feature" by (simp add: demo_cfg_def base_feature_def)
  have a2: "fingerprint_of ok_env base_feature ?s = Inr ?h"
    by (simp add: fingerprint_of_def ComputeFeatureHash_def HashDir_def env_eval collectDepHashes_def
        base_feature_def)
  have a3: "8 \<le> length ?h" by simp
  have a4: "Inputs base_feature = ''dirX'' # []" by (simp add: base_feature_def)
  have r: "ReadFeatureHash (store ?s) ''base'' \<noteq> Inr ?h"
    by (simp add: ReadFeatureHash_def init_run_def)
  have d: "dockerBuild ok_env (''base'' @ '':'' @ take 8 ?h) ''dirX''" by (simp add: env_eval)
  have w: "cacheWritable ok_env (FeatureHashPath ''base'')" by (simp add: env_eval)
  from buildStep_decision[OF a1 a2 a3 a4] r d
  have "buildStep ok_env demo_cfg ''base'' ?s =
      Inr (?s\<lparr>out := out ?s @ [BUILD ''base''],
             builds := builds ?s @ [(''base'' @ '':'' @ take 8 ?h, ''dirX'')],
             store := (case WriteFeatureHash ok_env ''base'' ?h (store ?s) of
                         Inl err \<Rightarrow> store ?s | Inr files \<Rightarrow> files),
             hashCache := (hashCache ?s)(''base'' \<mapsto> ?h)\<rparr>)"
    by simp
  then have "out (final_state (buildStep ok_env demo_cfg ''base'' ?s)) = [BUILD ''base'']"
    "builds (final_state (buildStep ok_env demo_cfg ''base'' ?s)) = [(''base:sha256:c'', ''dirX'')]"
    "store (final_state (buildStep ok_env demo_cfg ''base'' ?s)) (FeatureHashPath ''base'') = Some ?h"
    "hashCache (final_state (buildStep ok_env demo_cfg ''base'' ?s)) ''base'' = Some ?h"
    using w by (simp_all add: init_run_def WriteFeatureHash_def)
  with a1 a2 a3 a4 r d show ?thesis by simp
qed

text \<open>
  The claim as it stands fails for a feature in the build order whose input directory
  cannot be walked: with no cache file the run stops at the hashing error, and neither
  SKIP nor BUILD is printed. It also fails for a feature without input paths: after
  BUILD is printed, \<^verbatim>\<open>feat.Inputs[0]\<close> panics, and no docker command is run.
\<close>

theorem decision_counterexample:
  "fmlookup unreadable_cfg ''lib'' \<noteq> None \<and>
   ReadFeatureHash Map.empty ''lib'' = Inl (ReadError ''.builder-cache/lib/hash'') \<and>
   failure (BuildFeature ok_env unreadable_cfg ''lib'' Map.empty) = Some (HashError ''lib'' (WalkError ''nowhere'')) \<and>
   out (final_state (BuildFeature ok_env unreadable_cfg ''lib'' Map.empty)) = [] \<and>
   builds (final_state (BuildFeature ok_env unreadable_cfg ''lib'' Map.empty)) = [] \<and>
   fmlookup noinput_cfg ''all'' \<noteq> None \<and>
   failure (BuildFeature ok_env noinput_cfg ''all'' Map.empty) = Some IndexRangePanic \<and>
   out (final_state (BuildFeature ok_env noinput_cfg ''all'' Map.empty)) = [BUILD ''all''] \<and>
   builds (final_state (BuildFeature ok_env noinput_cfg ''all'' Map.empty)) = []"
  by (simp add: run_eval env_eval noinput_cfg_def unreadable_cfg_def)

text \<open>
  Claim C8. A failed write of the cache file after a successful build is to stop the
  run. The loop drops the error that \<open>WriteFeatureHash\<close> returns: with a cache that
  cannot be written the run ends without any error, the fingerprint in the per-run map
  and no cache file.
\<close>

theorem cache_write_failure_ignored:
  "WriteFeatureHash readonly_env ''base'' ''sha256:c1sha256:alphabeta'' Map.empty =
     Inl (WriteError ''.builder-cache/base/hash'') \<and>
   failure (BuildFeature readonly_env demo_cfg ''base'' Map.empty) = None \<and>
   out (final_state (BuildFeature readonly_env demo_cfg ''base'' Map.empty)) = [BUILD ''base''] \<and>
   builds (final_state (BuildFeature readonly_env demo_cfg ''base'' Map.empty)) =
     [(''base:sha256:c'', ''dirX'')] \<and>
   hashCache (final_state (BuildFeature readonly_env demo_cfg ''base'' Map.empty)) ''base'' =
     Some ''sha256:c1sha256:alphabeta'' \<and>
   store (final_state (BuildFeature readonly_env demo_cfg ''base'' Map.empty))
     (FeatureHashPath ''base'') = None"
  by (simp add: run_eval env_eval demo_cfg_def)

lemma buildLoop_no_write_error: "failure (buildLoop e cfg xs s) \<noteq> Some (WriteError p)"
proof (induction xs arbitrary: s)
  case Nil
  then show ?case by simp
next
  case (Cons g xs)
  show ?case
    by (cases rule: buildStep_cases[of cfg g e s]) (use Cons.IH in simp_all)
qed

lemma write_failure_never_surfaces: "failure (BuildFeature e cfg target files) \<noteq> Some (WriteError p)"
proof (cases "Resolve cfg target")
  case (Inl err)
  then show ?thesis by (simp add: BuildFeature_def)
next
  case (Inr xs)
  with buildLoop_no_write_error[of e cfg xs "init_run files" p] show ?thesis
    by (simp add: BuildFeature_def)
qed

subsection \<open>A failed build and the next run\<close>










subsection \<open>Fingerprints of one run\<close>

lemma collectDepHashes_upd:
  "g \<notin> set deps \<Longrightarrow> collectDepHashes (hc(g \<mapsto> h)) deps = collectDepHashes hc deps"
  by (auto simp: collectDepHashes_def)

lemma buildStep_hashCache:
  assumes "buildStep e cfg g s = Inr s'"
  shows "\<exists>feat h. fmlookup cfg g = Some feat \<and> fingerprint_of e feat s = Inr h \<and>
           hashCache s' = (hashCache s)(g \<mapsto> h)"
  using assms by (cases rule: buildStep_cases[of cfg g e s]) auto

lemma buildLoop_folds_own_run:
  assumes "buildLoop e cfg xs s = Inr s'"
    and "distinct (done @ xs)"
    and "\<forall>f \<in> set done. folds_own_run e cfg (hashCache s) f"
    and "\<forall>f \<in> set done. \<forall>feat. fmlookup cfg f = Some feat \<longrightarrow> set (DependsOn feat) \<subseteq> set done"
    and "\<forall>pre a post feat. xs = pre @ a # post \<and> fmlookup cfg a = Some feat \<longrightarrow>
           set (DependsOn feat) \<subseteq> set done \<union> set pre"
  shows "\<forall>f \<in> set done \<union> set xs. folds_own_run e cfg (hashCache s') f"
  using assms
proof (induction xs arbitrary: s "done")
  case Nil
  then show ?case by simp
next
  case (Cons g xs)
  from Cons.prems(1) obtain s1 where st: "buildStep e cfg g s = Inr s1"
    and l: "buildLoop e cfg xs s1 = Inr s'" by (auto split: sum.splits)
  from buildStep_hashCache[OF st] obtain feat h where feat: "fmlookup cfg g = Some feat"
    and h: "fingerprint_of e feat s = Inr h" and hc: "hashCache s1 = (hashCache s)(g \<mapsto> h)" by blast
  from Cons.prems(2) have gd: "g \<notin> set done" and d': "distinct ((done @ [g]) @ xs)" by auto
  from Cons.prems(5)[rule_format, of "[]" g xs feat] feat have dg: "set (DependsOn feat) \<subseteq> set done" by simp
  with gd have gdep: "g \<notin> set (DependsOn feat)" by auto
  have own: "folds_own_run e cfg (hashCache s1) g"
    using feat h hc collectDepHashes_upd[OF gdep, of "hashCache s" h]
    by (auto simp: folds_own_run_def fingerprint_of_def)
  have old: "folds_own_run e cfg (hashCache s1) f" if f: "f \<in> set done" for f
  proof -
    from Cons.prems(3) f obtain ff hf where ff: "fmlookup cfg f = Some ff" and hf: "hashCache s f = Some hf"
      and c: "ComputeFeatureHash e ff (collectDepHashes (hashCache s) (DependsOn ff)) = Inr hf"
      by (auto simp: folds_own_run_def)
    from Cons.prems(4) f ff have "set (DependsOn ff) \<subseteq> set done" by blast
    with gd have "g \<notin> set (DependsOn ff)" by auto
    from collectDepHashes_upd[OF this, of "hashCache s" h] ff hf c hc f gd show ?thesis
      by (auto simp: folds_own_run_def)
  qed
  have p3: "\<forall>f \<in> set (done @ [g]). folds_own_run e cfg (hashCache s1) f"
    using own old by auto
  have p4: "\<forall>f \<in> set (done @ [g]). \<forall>feat. fmlookup cfg f = Some feat \<longrightarrow> set (DependsOn feat) \<subseteq> set (done @ [g])"
    using Cons.prems(4) dg feat by auto
  have p5: "\<forall>pre a post feat. xs = pre @ a # post \<and> fmlookup cfg a = Some feat \<longrightarrow>
           set (DependsOn feat) \<subseteq> set (done @ [g]) \<union> set pre"
  proof (intro allI impI)
    fix pre a post fa assume "xs = pre @ a # post \<and> fmlookup cfg a = Some fa"
    then have "g # xs = (g # pre) @ a # post" "fmlookup cfg a = Some fa" by simp_all
    from Cons.prems(5)[rule_format, OF conjI, OF this]
    show "set (DependsOn fa) \<subseteq> set (done @ [g]) \<union> set pre" by auto
  qed
  from Cons.IH[OF l d' p3 p4 p5] show ?case by auto
qed

lemma precedes_split:
  assumes "distinct (pre @ a # post)" and "precedes (pre @ a # post) b a"
  shows "b \<in> set pre"
proof -
  from assms(1) have "a \<notin> set pre" by simp
  then have "takeWhile (\<lambda>x. x \<noteq> a) (pre @ a # post) = pre @ takeWhile (\<lambda>x. x \<noteq> a) (a # post)"
    by (intro takeWhile_append2) auto
  with assms(2) show ?thesis by (simp add: precedes_def)
qed

text \<open>
  After a run that completes, the per-run map holds, for every feature reachable from the
  target, the digest over the fingerprints that the same map holds for its dependencies:
  the dependencies were processed earlier in the same run, and nothing is read back from
  the cache files, whatever they held.
\<close>

lemma per_run_map_folds_own_run:
  assumes "BuildFeature e cfg target files = Inr s'"
  shows "\<forall>f \<in> reachable cfg target. folds_own_run e cfg (hashCache s') f"
proof -
  from assms obtain xs where r: "Resolve cfg target = Inr xs"
    and l: "buildLoop e cfg xs (init_run files) = Inr s'"
    by (auto simp: BuildFeature_def split: sum.splits)
  note R = Resolve_Inr[OF r]
  have "\<forall>pre a post feat. xs = pre @ a # post \<and> fmlookup cfg a = Some feat \<longrightarrow>
           set (DependsOn feat) \<subseteq> set [] \<union> set pre"
  proof (intro allI impI subsetI)
    fix pre a post feat b
    assume A: "xs = pre @ a # post \<and> fmlookup cfg a = Some feat" and b: "b \<in> set (DependsOn feat)"
    then have "(a, b) \<in> depends cfg" "a \<in> set xs" by (auto simp: depends_def)
    from R(3)[OF this] R(1) A have "b \<in> set pre" by (auto intro: precedes_split)
    then show "b \<in> set [] \<union> set pre" by simp
  qed
  from buildLoop_folds_own_run[OF l, of "[]", OF _ _ _ this] R(1) R(2) show ?thesis by simp
qed

text \<open>
  The end-to-end example of the specification: a first run builds both features, a second
  run without changes skips both, and a run after an edit under the input of base builds
  both again.
\<close>

lemma end_to_end_example:
  "out (final_state (BuildFeature ok_env demo_cfg ''app'' Map.empty)) = [BUILD ''base'', BUILD ''app'']"
  "out (final_state (BuildFeature ok_env demo_cfg ''app''
     (store (final_state (BuildFeature ok_env demo_cfg ''app'' Map.empty))))) = [SKIP ''base'', SKIP ''app'']"
  "out (final_state (BuildFeature edited_env demo_cfg ''app''
     (store (final_state (BuildFeature ok_env demo_cfg ''app'' Map.empty))))) = [BUILD ''base'', BUILD ''app'']"
  by (simp_all add: run_eval env_eval demo_cfg_def)




subsection \<open>The order of the dependency fingerprints and the build loop\<close>

text \<open>
  What sorting the fingerprints by value (claim C3) does to the loop: for any digest
  function, exchanging the fingerprints of two dependencies leaves the fingerprint of the
  dependent as it was. Below, a and b have the same command and the contents of their
  input directories are exchanged between two runs: both are rebuilt with changed
  fingerprints, and app, which depends on both, is skipped.
\<close>

lemma fingerprint_ignores_swap:
  assumes "DependsOn feat = [a, b]" and "a \<noteq> b"
  shows "fingerprint_of e feat (s\<lparr>hashCache := [a \<mapsto> x, b \<mapsto> y]\<rparr>) =
         fingerprint_of e feat (s\<lparr>hashCache := [a \<mapsto> y, b \<mapsto> x]\<rparr>)"
  unfolding fingerprint_of_def
  by (rule ComputeFeatureHash_permutation) (use assms in \<open>auto simp: collectDepHashes_def\<close>)

lemma swapped_dependencies_skip_dependent:
  "out (final_state (BuildFeature (swap_env ''one'' ''two'') swap_cfg ''app'' Map.empty)) =
     [BUILD ''a'', BUILD ''b'', BUILD ''app''] \<and>
   out (final_state (BuildFeature (swap_env ''two'' ''one'') swap_cfg ''app''
     (store (final_state (BuildFeature (swap_env ''one'' ''two'') swap_cfg ''app'' Map.empty))))) =
     [BUILD ''a'', BUILD ''b'', SKIP ''app''] \<and>
   hashCache (final_state (BuildFeature (swap_env ''one'' ''two'') swap_cfg ''app'' Map.empty)) ''a'' \<noteq>
   hashCache (final_state (BuildFeature (swap_env ''two'' ''one'') swap_cfg ''app''
     (store (final_state (BuildFeature (swap_env ''one'' ''two'') swap_cfg ''app'' Map.empty))))) ''a'' \<and>
   hashCache (final_state (BuildFeature (swap_env ''one'' ''two'') swap_cfg ''app'' Map.empty)) ''b'' \<noteq>
   hashCache (final_state (BuildFeature (swap_env ''two'' ''one'') swap_cfg ''app''
     (store (final_state (BuildFeature (swap_env ''one'' ''two'') swap_cfg ''app'' Map.empty))))) ''b''"
  by (simp add: run_eval swap_env_def swap_cfg_def)

end
